theory Spec2Isabelle
  imports Complex_Main "HOL-Library.Log_Nat" "HOL-Library.Word"
begin

section \<open>The page controller of static/script.js\<close>

text \<open>
  The script keeps three global variables (\<open>currentSessionId\<close>, \<open>processingInterval\<close>,
  \<open>isProcessing\<close>) and drives the page through the DOM, \<open>fetch\<close>, \<open>setInterval\<close>,
  \<open>alert\<close> and \<open>console.error\<close>. The model is a record \<open>page\<close> holding the globals,
  the part of the DOM the script writes, and what the browser keeps for it: the live
  interval timers, the network requests sent, the alerts shown, the console, and the
  \<open>async\<close> calls suspended at an \<open>await\<close>. Every function of the script is a function
  from page to page; an \<open>async\<close> function is split at its \<open>await\<close> into the part that
  runs at the call and the part that runs when the response arrives. The drag-and-drop
  styling, the unload prompt and the two formatting utilities, which nothing calls, are
  left out.
\<close>

subsection \<open>Strings\<close>

text \<open>
  Strings are byte strings. \<open>toLowerCase\<close> is modelled on the letters A to Z only; the
  script compares its result with the ASCII words \<open>.csv\<close>, \<open>address\<close>, \<open>city\<close>, ..., and
  no character outside A to Z has one of the letters of these words as its lower case.
\<close>

definition lower_char :: "char \<Rightarrow> char" where
  "lower_char c =
     (let n = (of_char c :: nat)
      in if 65 \<le> n \<and> n \<le> 90 then char_of (n + 32) else c)"

definition toLowerCase :: "string \<Rightarrow> string" where
  "toLowerCase s = map lower_char s"

definition endsWith :: "string \<Rightarrow> string \<Rightarrow> bool" where
  "endsWith s suffix_str =
     (length suffix_str \<le> length s \<and> drop (length s - length suffix_str) s = suffix_str)"

text \<open>\<open>indexOf\<close> of an array: the first position of the element, \<open>None\<close> for -1.\<close>

fun indexOf :: "'a list \<Rightarrow> 'a \<Rightarrow> nat option" where
  "indexOf [] x = None"
| "indexOf (y # ys) x = (if y = x then Some 0 else map_option Suc (indexOf ys x))"

text \<open>
  \<open>slice(start)\<close> of an array: a negative start counts from the end and stops at the
  first element, a start past the end gives the empty array.
\<close>

definition slice_from :: "int \<Rightarrow> 'a list \<Rightarrow> 'a list" where
  "slice_from start xs =
     (let len = int (length xs);
          k = (if start < 0 then max (len + start) 0 else min start len)
      in drop (nat k) xs)"

text \<open>
  A variable that holds a string, \<open>null\<close> or \<open>undefined\<close> is a \<open>string option\<close>. It is
  falsy when it is \<open>null\<close>, \<open>undefined\<close> or the empty string.
\<close>

definition truthy :: "string option \<Rightarrow> bool" where
  "truthy v = (case v of None \<Rightarrow> False | Some str \<Rightarrow> str \<noteq> [])"

definition or_else :: "string option \<Rightarrow> string \<Rightarrow> string" where
  "or_else v d = (case v of None \<Rightarrow> d | Some str \<Rightarrow> if str = [] then d else str)"

definition interpolate :: "string option \<Rightarrow> string" where
  "interpolate v = (case v of None \<Rightarrow> ''undefined'' | Some str \<Rightarrow> str)"

definition dquote :: char where
  "dquote = CHR 0x22"

definition newline :: char where
  "newline = CHR 0x0A"

subsection \<open>Numbers\<close>

text \<open>
  A JavaScript number is an IEEE 754 double. The finite doubles are rational numbers, and
  every arithmetic operation returns the exact result rounded to the nearest double, ties
  to the even significand. \<open>fl\<close> is that rounding for a significand of 53 bits; it is the
  double rounding wherever the exponent is in range (absolute values from \<open>2 powi -1022\<close>
  up to \<open>2 ^ 1024\<close>), which covers every number the script computes from counts.
\<close>

definition round_half_even :: "rat \<Rightarrow> int" where
  "round_half_even x =
     (let f = \<lfloor>x\<rfloor>; r = x - of_int f
      in if r < 1 / 2 then f
         else if 1 / 2 < r then f + 1
         else if even f then f else f + 1)"

text \<open>\<open>ilog2 x\<close> is the exponent of a positive \<open>x\<close>: \<open>2 powi ilog2 x \<le> x < 2 powi (ilog2 x + 1)\<close>.\<close>

definition ilog2 :: "rat \<Rightarrow> int" where
  "ilog2 x =
     (let (p, q) = quotient_of x; e0 = bitlen p - bitlen q
      in if 2 powi e0 \<le> x then e0 else e0 - 1)"

definition fl :: "rat \<Rightarrow> rat" where
  "fl x =
     (if x = 0 then 0
      else let e = ilog2 \<bar>x\<bar> - 52
           in of_int (round_half_even (x / 2 powi e)) * 2 powi e)"

text \<open>\<open>Math.round\<close>: the nearest integer, a tie going up.\<close>

definition Math_round :: "rat \<Rightarrow> int" where
  "Math_round y = \<lfloor>y + 1 / 2\<rfloor>"

text \<open>
  The decimal digits of a whole number, as \<open>String(n)\<close> writes it for an integer below
  \<open>10 ^ 21\<close>.
\<close>

definition digit_char :: "nat \<Rightarrow> char" where
  "digit_char d = char_of (48 + d)"

fun show_nat :: "nat \<Rightarrow> string" where
  "show_nat n = (if n < 10 then [digit_char n] else show_nat (n div 10) @ [digit_char (n mod 10)])"

declare show_nat.simps [simp del]

definition show_int :: "int \<Rightarrow> string" where
  "show_int i = (if i < 0 then CHR ''-'' # show_nat (nat (- i)) else show_nat (nat i))"

subsection \<open>Data exchanged with the server\<close>

record upload_file =
  name :: string
  content :: string

text \<open>The JSON body of the upload response; a field that is absent is \<open>None\<close>.\<close>

record upload_result =
  res_session_id :: "string option"
  res_filename :: "string option"
  res_headers :: "string list"
  res_error :: "string option"

record config =
  session_id :: "string option"
  address_column :: string
  city_column :: string
  state_column :: string
  zip_column :: string

record log_entry =
  timestamp :: string
  message :: string
  entry_type :: string

text \<open>
  A numeric field of the status snapshot. The script writes \<open>|| 0\<close> after these fields, so
  it reckons with a key that is absent (\<open>undefined\<close>) or \<open>null\<close>. A number is a whole number
  below \<open>2 ^ 53\<close>: these are the counts a double holds exactly, and \<open>String\<close> writes them
  digit by digit.
\<close>

datatype count = Absent | Null | Count "53 word"

text \<open>
  The status snapshot. Every numeric field is a count; \<open>current_address\<close> and
  \<open>results_log\<close> may be absent or \<open>null\<close>; an absent completion flag is falsy, as \<open>False\<close> is.
\<close>

record status =
  progress_percent :: count
  current_address :: "string option"
  total_processed :: count
  successful_geocodes :: count
  failed_geocodes :: count
  processing_complete :: bool
  results_log :: "log_entry list option"

datatype payload = No_body | Form_data upload_file | Json_body config

record request =
  http_method :: string
  url :: string
  body :: payload

text \<open>
  What an awaited \<open>fetch\<close> followed by \<open>response.json()\<close> delivers: \<open>fetch\<close> rejects
  (a transport error, with its message), or a response arrives with its \<open>ok\<close> flag and a
  body that parses as JSON or makes \<open>json()\<close> reject.
\<close>

datatype 'a parsed = Unparseable string | Json 'a

datatype 'a fetched = Rejected string | Response bool "'a parsed"

text \<open>The \<open>async\<close> calls that are suspended at their \<open>await\<close>.\<close>

datatype call = Awaiting_upload | Awaiting_process | Awaiting_stop | Awaiting_status

subsection \<open>The page\<close>

record log_div =
  className :: string
  innerHTML :: string

record page =
  currentSessionId :: "string option"
  processingInterval :: "nat option"
  isProcessing :: bool
  intervals :: "nat list"
  next_interval :: nat
  inflight :: "call list"
  requests :: "request list"
  alerts :: "string list"
  console :: "string list"
  uploadArea_text :: string
  configSection_display :: string
  configSection_classes :: "string list"
  progressSection_display :: string
  progressSection_classes :: "string list"
  resultsSection_display :: string
  resultsSection_classes :: "string list"
  downloadSection_display :: string
  downloadBtn_onclick :: bool
  processBtn_display :: string
  stopBtn_display :: string
  column_options :: "string list"
  addressColumn_value :: string
  cityColumn_value :: string
  stateColumn_value :: string
  zipColumn_value :: string
  progressFill_width :: string
  progressText :: string
  processedCount :: string
  successCount :: string
  failedCount :: string
  successRate :: string
  resultsLog :: "log_div list"
  resultsLog_scrollTop :: nat

text \<open>The page as loaded: the globals as the script initialises them, nothing shown yet.\<close>

definition initial_page :: page where
  "initial_page =
     \<lparr>currentSessionId = None, processingInterval = None, isProcessing = False,
      intervals = [], next_interval = 1, inflight = [], requests = [], alerts = [],
      console = [], uploadArea_text = [], configSection_display = [],
      configSection_classes = [], progressSection_display = [],
      progressSection_classes = [], resultsSection_display = [],
      resultsSection_classes = [], downloadSection_display = [],
      downloadBtn_onclick = False, processBtn_display = [], stopBtn_display = [],
      column_options = [], addressColumn_value = [], cityColumn_value = [],
      stateColumn_value = [], zipColumn_value = [], progressFill_width = [],
      progressText = [], processedCount = [], successCount = [], failedCount = [],
      successRate = [], resultsLog = [], resultsLog_scrollTop = 0\<rparr>"

subsection \<open>The browser\<close>

text \<open>
  \<open>setInterval\<close> returns a fresh positive handle and the timer stays live until
  \<open>clearInterval\<close> is called on its handle; \<open>clearInterval\<close> of \<open>null\<close> or of a handle
  that is not live does nothing.
\<close>

definition setInterval :: "page \<Rightarrow> nat \<times> page" where
  "setInterval s =
     (next_interval s,
      s\<lparr>intervals := intervals s @ [next_interval s], next_interval := Suc (next_interval s)\<rparr>)"

definition clearInterval :: "nat option \<Rightarrow> page \<Rightarrow> page" where
  "clearInterval h s =
     (case h of None \<Rightarrow> s | Some t \<Rightarrow> s\<lparr>intervals := filter (\<lambda>u. u \<noteq> t) (intervals s)\<rparr>)"

definition fetch :: "request \<Rightarrow> call \<Rightarrow> page \<Rightarrow> page" where
  "fetch r k s = s\<lparr>requests := requests s @ [r], inflight := inflight s @ [k]\<rparr>"

definition classList_add :: "string \<Rightarrow> string list \<Rightarrow> string list" where
  "classList_add c cs = (if c \<in> set cs then cs else cs @ [c])"

subsection \<open>Upload\<close>

definition showError :: "string \<Rightarrow> page \<Rightarrow> page" where
  "showError msg s = s\<lparr>alerts := alerts s @ [''Error: '' @ msg]\<rparr>"

definition showLoading :: "string \<Rightarrow> page \<Rightarrow> page" where
  "showLoading msg s =
     s\<lparr>progressText := ''<div class='' @ [dquote] @ ''loading'' @ [dquote] @ ''></div>'' @ msg,
       progressSection_display := ''block''\<rparr>"

definition hideLoading :: "page \<Rightarrow> page" where
  "hideLoading s = (if \<not> isProcessing s then s\<lparr>progressSection_display := ''none''\<rparr> else s)"

text \<open>
  \<open>handleFileUpload\<close> up to its first \<open>await\<close>: a name that does not end in \<open>.csv\<close> once
  lowered is refused with an alert and the function returns; otherwise the loading text is
  shown and the file is posted.
\<close>

definition handleFileUpload :: "upload_file \<Rightarrow> page \<Rightarrow> page" where
  "handleFileUpload file s =
     (if \<not> endsWith (toLowerCase (name file)) ''.csv''
      then showError ''Please select a CSV file.'' s
      else fetch \<lparr>http_method = ''POST'', url = ''/upload'', body = Form_data file\<rparr>
             Awaiting_upload (showLoading ''Uploading file...'' s))"

text \<open>
  The four selects get the same options. They are single-choice drop-downs, so a select
  whose options were just rebuilt shows its first option, and none when there is no option.
  Assigning \<open>select.value\<close> selects the option with that value, and clears the selection
  when there is none.
\<close>

definition select_value :: "string list \<Rightarrow> string \<Rightarrow> string" where
  "select_value options v = (if v \<in> set options then v else [])"

definition set_select :: "string \<Rightarrow> string \<Rightarrow> page \<Rightarrow> page" where
  "set_select column v s =
     (let v' = select_value (column_options s) v
      in if column = ''address'' then s\<lparr>addressColumn_value := v'\<rparr>
         else if column = ''city'' then s\<lparr>cityColumn_value := v'\<rparr>
         else if column = ''state'' then s\<lparr>stateColumn_value := v'\<rparr>
         else if column = ''zip'' then s\<lparr>zipColumn_value := v'\<rparr>
         else s)"

definition patterns :: "(string \<times> string list) list" where
  "patterns =
     [(''address'', [''address'', ''street'', ''property address'', ''property_address'']),
      (''city'', [''city'', ''town'', ''municipality'']),
      (''state'', [''state'', ''st'', ''province'']),
      (''zip'', [''zip'', ''zipcode'', ''zip code'', ''postal'', ''postal code''])]"

text \<open>The inner loop of \<open>autoSelectColumns\<close>: the header of the first pattern that is found.\<close>

fun first_pattern_match :: "string list \<Rightarrow> string list \<Rightarrow> string option" where
  "first_pattern_match [] headers = None"
| "first_pattern_match (p # ps) headers =
     (case indexOf (map toLowerCase headers) p of
        Some i \<Rightarrow> Some (headers ! i)
      | None \<Rightarrow> first_pattern_match ps headers)"

definition autoSelectColumns :: "string list \<Rightarrow> page \<Rightarrow> page" where
  "autoSelectColumns headers s =
     foldl (\<lambda>s' (column, patternList).
              case first_pattern_match patternList headers of
                Some v \<Rightarrow> set_select column v s'
              | None \<Rightarrow> s')
       s patterns"

definition populateColumnSelects :: "string list \<Rightarrow> page \<Rightarrow> page" where
  "populateColumnSelects headers s =
     (let first = (case headers of [] \<Rightarrow> [] | h # _ \<Rightarrow> h)
      in autoSelectColumns headers
           (s\<lparr>column_options := headers, addressColumn_value := first,
              cityColumn_value := first, stateColumn_value := first,
              zipColumn_value := first\<rparr>))"

definition showConfigSection :: "string option \<Rightarrow> page \<Rightarrow> page" where
  "showConfigSection filename s =
     s\<lparr>uploadArea_text := ''Selected: '' @ interpolate filename,
       configSection_display := ''block'',
       configSection_classes := classList_add ''fade-in'' (configSection_classes s)\<rparr>"

text \<open>\<open>handleFileUpload\<close> from the response on; a rejection of either \<open>await\<close> is caught.\<close>

definition handleFileUpload_resume :: "upload_result fetched \<Rightarrow> page \<Rightarrow> page" where
  "handleFileUpload_resume r s =
     (case r of
        Rejected msg \<Rightarrow> showError (''Upload failed: '' @ msg) (hideLoading s)
      | Response ok (Unparseable msg) \<Rightarrow> showError (''Upload failed: '' @ msg) (hideLoading s)
      | Response ok (Json result) \<Rightarrow>
          (let s1 = hideLoading s
           in if ok
              then showConfigSection (res_filename result)
                     (populateColumnSelects (res_headers result)
                        (s1\<lparr>currentSessionId := res_session_id result\<rparr>))
              else showError (or_else (res_error result) ''Upload failed'') s1))"

subsection \<open>Starting, stopping and completing\<close>

definition showProgressSection :: "page \<Rightarrow> page" where
  "showProgressSection s =
     s\<lparr>progressSection_display := ''block'',
       progressSection_classes := classList_add ''slide-up'' (progressSection_classes s)\<rparr>"

definition showResultsSection :: "page \<Rightarrow> page" where
  "showResultsSection s =
     s\<lparr>resultsSection_display := ''block'',
       resultsSection_classes := classList_add ''slide-up'' (resultsSection_classes s)\<rparr>"

definition showDownloadSection :: "page \<Rightarrow> page" where
  "showDownloadSection s = s\<lparr>downloadSection_display := ''block'', downloadBtn_onclick := True\<rparr>"

definition startProcessing :: "page \<Rightarrow> page" where
  "startProcessing s =
     (let s1 = s\<lparr>isProcessing := True, processBtn_display := ''none'',
                 stopBtn_display := ''inline-block''\<rparr>;
          s2 = showResultsSection (showProgressSection s1);
          (h, s3) = setInterval s2
      in s3\<lparr>processingInterval := Some h\<rparr>)"

text \<open>\<open>processFile\<close> up to its first \<open>await\<close>, and from the response on.\<close>

definition processFile :: "page \<Rightarrow> page" where
  "processFile s =
     (if \<not> truthy (currentSessionId s) then showError ''No file uploaded'' s
      else let cfg = \<lparr>session_id = currentSessionId s,
                       address_column = addressColumn_value s,
                       city_column = cityColumn_value s,
                       state_column = stateColumn_value s,
                       zip_column = zipColumn_value s\<rparr>
           in if address_column cfg = [] \<or> city_column cfg = [] \<or> state_column cfg = []
                 \<or> zip_column cfg = []
              then showError ''Please select all column mappings'' s
              else fetch \<lparr>http_method = ''POST'', url = ''/process'', body = Json_body cfg\<rparr>
                     Awaiting_process s)"

definition processFile_resume :: "string option fetched \<Rightarrow> page \<Rightarrow> page" where
  "processFile_resume r s =
     (case r of
        Rejected msg \<Rightarrow> showError (''Processing failed: '' @ msg) s
      | Response ok (Unparseable msg) \<Rightarrow> showError (''Processing failed: '' @ msg) s
      | Response ok (Json result_error) \<Rightarrow>
          (if ok then startProcessing s
           else showError (or_else result_error ''Processing failed to start'') s))"

text \<open>
  \<open>stopProcessing\<close> up to its \<open>await\<close>, and from the response on. The body of the stop
  response is never read.
\<close>

definition stopProcessing :: "page \<Rightarrow> page" where
  "stopProcessing s =
     (if \<not> truthy (currentSessionId s) then s
      else fetch \<lparr>http_method = ''POST'',
                   url = ''/stop/'' @ interpolate (currentSessionId s), body = No_body\<rparr>
             Awaiting_stop s)"

definition stopProcessing_resume :: "unit fetched \<Rightarrow> page \<Rightarrow> page" where
  "stopProcessing_resume r s =
     (case r of
        Rejected msg \<Rightarrow> showError (''Failed to stop processing: '' @ msg) s
      | Response ok b \<Rightarrow>
          (if ok
           then (clearInterval (processingInterval s) s)
                  \<lparr>isProcessing := False, processBtn_display := ''inline-block'',
                    stopBtn_display := ''none'',
                    progressText := ''Processing stopped by user''\<rparr>
           else s))"

definition completeProcessing :: "page \<Rightarrow> page" where
  "completeProcessing s =
     showDownloadSection
       ((clearInterval (processingInterval s) s)
          \<lparr>isProcessing := False, processBtn_display := ''inline-block'',
            stopBtn_display := ''none'', progressText := ''Processing complete!'',
            progressFill_width := ''100%''\<rparr>)"

subsection \<open>Progress\<close>

text \<open>\<open>x || 0\<close> for a count \<open>x\<close>: the number, and 0 when \<open>x\<close> is absent, \<open>null\<close> or 0.\<close>

definition or_zero :: "count \<Rightarrow> nat" where
  "or_zero x = (case x of Absent \<Rightarrow> 0 | Null \<Rightarrow> 0 | Count n \<Rightarrow> unat n)"

text \<open>
  A count used as it is in a division: \<open>undefined\<close> becomes \<open>NaN\<close>, which is \<open>None\<close> here,
  and \<open>null\<close> becomes 0.
\<close>

definition to_number :: "count \<Rightarrow> rat option" where
  "to_number x =
     (case x of Absent \<Rightarrow> None | Null \<Rightarrow> Some 0 | Count n \<Rightarrow> Some (of_nat (unat n)))"

text \<open>
  The rate of \<open>updateProgressDisplay\<close>. The total adds the two counts after \<open>|| 0\<close>; the
  quotient divides the successful count as the snapshot has it, without \<open>|| 0\<close>. The sum,
  the quotient and the product are each rounded to a double; \<open>Math.round\<close> of \<open>NaN\<close> is
  \<open>NaN\<close>.
\<close>

definition success_rate :: "count \<Rightarrow> count \<Rightarrow> int option" where
  "success_rate successful failed =
     (let total = fl (of_nat (or_zero successful) + of_nat (or_zero failed))
      in if 0 < total
         then (case to_number successful of
                 None \<Rightarrow> None
               | Some x \<Rightarrow> Some (Math_round (fl (fl (x / total) * 100))))
         else Some 0)"

text \<open>The rate as \<open>rate + '%'\<close> writes it.\<close>

definition rate_text :: "int option \<Rightarrow> string" where
  "rate_text rate = (case rate of None \<Rightarrow> ''NaN'' | Some i \<Rightarrow> show_int i)"

definition updateProgressDisplay :: "status \<Rightarrow> page \<Rightarrow> page" where
  "updateProgressDisplay st s =
     (let progress = or_zero (progress_percent st);
          s1 = s\<lparr>progressFill_width := show_nat progress @ ''%''\<rparr>;
          s2 = (if truthy (current_address st)
                then s1\<lparr>progressText := ''Processing: '' @ interpolate (current_address st)\<rparr>
                else s1\<lparr>progressText := ''Progress: '' @ show_nat progress @ ''%''\<rparr>);
          s3 = s2\<lparr>processedCount := show_nat (or_zero (total_processed st)),
                   successCount := show_nat (or_zero (successful_geocodes st)),
                   failedCount := show_nat (or_zero (failed_geocodes st))\<rparr>;
          rate = success_rate (successful_geocodes st) (failed_geocodes st)
      in s3\<lparr>successRate := rate_text rate @ ''%''\<rparr>)"

text \<open>
  One rendered entry of the log. The log's heights are counted in entries, so scrolling
  to the bottom sets \<open>scrollTop\<close> to the number of entries shown.
\<close>

definition log_entry_div :: "log_entry \<Rightarrow> log_div" where
  "log_entry_div entry =
     \<lparr>className = ''log-entry '' @ entry_type entry,
      innerHTML = [newline] @ replicate 12 CHR '' ''
        @ ''<span class='' @ [dquote] @ ''log-timestamp'' @ [dquote] @ ''>''
        @ timestamp entry @ ''</span>''
        @ [newline] @ replicate 12 CHR '' '' @ message entry
        @ [newline] @ replicate 8 CHR '' ''\<rparr>"

definition updateResultsLog :: "log_entry list option \<Rightarrow> page \<Rightarrow> page" where
  "updateResultsLog logEntries s =
     (case logEntries of
        None \<Rightarrow> s
      | Some entries \<Rightarrow>
          if length entries = 0 then s
          else let recentEntries = slice_from (- 50) entries;
                   divs = foldl (\<lambda>children entry. children @ [log_entry_div entry]) []
                            recentEntries
               in s\<lparr>resultsLog := divs, resultsLog_scrollTop := length divs\<rparr>)"

text \<open>\<open>updateProgress\<close>, the timer's callback, up to its first \<open>await\<close> and from the response on.\<close>

definition updateProgress :: "page \<Rightarrow> page" where
  "updateProgress s =
     (if \<not> truthy (currentSessionId s) \<or> \<not> isProcessing s then s
      else fetch \<lparr>http_method = ''GET'',
                   url = ''/status/'' @ interpolate (currentSessionId s), body = No_body\<rparr>
             Awaiting_status s)"

definition console_error :: "string \<Rightarrow> page \<Rightarrow> page" where
  "console_error msg s = s\<lparr>console := console s @ [msg]\<rparr>"

definition updateProgress_resume :: "status fetched \<Rightarrow> page \<Rightarrow> page" where
  "updateProgress_resume r s =
     (case r of
        Rejected msg \<Rightarrow> console_error (''Failed to update progress: '' @ msg) s
      | Response ok (Unparseable msg) \<Rightarrow> console_error (''Failed to update progress: '' @ msg) s
      | Response ok (Json st) \<Rightarrow>
          (if ok
           then let s1 = updateResultsLog (results_log st) (updateProgressDisplay st s)
                in if processing_complete st then completeProcessing s1 else s1
           else s))"

subsection \<open>Events\<close>

text \<open>
  The page runs one event at a time, each to its next \<open>await\<close> or to its end: the user
  chooses a file, picks a column, presses the process or the stop button, a live timer
  fires, or the response of a suspended call arrives. An event that cannot happen (a
  timer that is not live, a response nobody waits for, a header that is not among the
  options) leaves the page as it is.
\<close>

datatype response =
    Upload_response "upload_result fetched"
  | Process_response "string option fetched"
  | Stop_response "unit fetched"
  | Status_response "status fetched"

datatype event =
    Choose_file upload_file
  | Select_column string string
  | Click_process
  | Click_stop
  | Tick nat
  | Arrive response

definition resume :: "call \<Rightarrow> (page \<Rightarrow> page) \<Rightarrow> page \<Rightarrow> page" where
  "resume k continuation s =
     (if k \<in> set (inflight s) then continuation (s\<lparr>inflight := remove1 k (inflight s)\<rparr>)
      else s)"

fun step :: "page \<Rightarrow> event \<Rightarrow> page" where
  "step s (Choose_file file) = handleFileUpload file s"
| "step s (Select_column column v) =
     (if v \<in> set (column_options s) then set_select column v s else s)"
| "step s Click_process = processFile s"
| "step s Click_stop = stopProcessing s"
| "step s (Tick h) = (if h \<in> set (intervals s) then updateProgress s else s)"
| "step s (Arrive (Upload_response r)) = resume Awaiting_upload (handleFileUpload_resume r) s"
| "step s (Arrive (Process_response r)) = resume Awaiting_process (processFile_resume r) s"
| "step s (Arrive (Stop_response r)) = resume Awaiting_stop (stopProcessing_resume r) s"
| "step s (Arrive (Status_response r)) = resume Awaiting_status (updateProgress_resume r) s"

definition run :: "page \<Rightarrow> event list \<Rightarrow> page" where
  "run s events = foldl step s events"

subsection \<open>Notions of the specification\<close>

text \<open>
  The specification's file rule: the name ends in \<open>.csv\<close>, in any mix of upper and lower
  case.
\<close>

definition csv_extension :: "string \<Rightarrow> bool" where
  "csv_extension n =
     (case rev n of
        v # s # c # d # stem \<Rightarrow>
          d = CHR ''.'' \<and> (c = CHR ''c'' \<or> c = CHR ''C'') \<and> (s = CHR ''s'' \<or> s = CHR ''S'')
            \<and> (v = CHR ''v'' \<or> v = CHR ''V'')
      | _ \<Rightarrow> False)"

text \<open>The specification's mapping rule: each of the four columns is bound to a header.\<close>

definition all_bound :: "page \<Rightarrow> bool" where
  "all_bound s =
     (addressColumn_value s \<noteq> [] \<and> cityColumn_value s \<noteq> [] \<and> stateColumn_value s \<noteq> []
        \<and> zipColumn_value s \<noteq> [])"

text \<open>
  The timer discipline: while processing is active the one live timer is the one whose
  handle \<open>processingInterval\<close> holds, and no timer is live otherwise.
\<close>

definition timer_inv :: "page \<Rightarrow> bool" where
  "timer_inv s =
     (if isProcessing s
      then (case processingInterval s of Some h \<Rightarrow> intervals s = [h] | None \<Rightarrow> False)
      else intervals s = [])"

definition timer_state :: "page \<Rightarrow> bool \<times> nat option \<times> nat list" where
  "timer_state s = (isProcessing s, processingInterval s, intervals s)"

text \<open>
  An event launches the polling loop when it is the successful response to a process
  request somebody waits for: then, and only then, \<open>startProcessing\<close> runs. A sequence of
  events launches when idle if each launch finds processing inactive.
\<close>

fun launches :: "page \<Rightarrow> event \<Rightarrow> bool" where
  "launches s (Arrive (Process_response (Response ok (Json b)))) =
     (ok \<and> Awaiting_process \<in> set (inflight s))"
| "launches s e = False"

fun idle_launches :: "page \<Rightarrow> event list \<Rightarrow> bool" where
  "idle_launches s [] = True"
| "idle_launches s (e # es) =
     ((if launches s e then \<not> isProcessing s else True) \<and> idle_launches (step s e) es)"

text \<open>A status fetch fails when it is rejected, cannot be parsed, or is not \<open>ok\<close>.\<close>

definition fetch_failed :: "'a fetched \<Rightarrow> bool" where
  "fetch_failed r =
     (case r of
        Rejected msg \<Rightarrow> True
      | Response ok (Unparseable msg) \<Rightarrow> True
      | Response ok (Json b) \<Rightarrow> \<not> ok)"

text \<open>
  The specification's rate: the successful count divided by the sum of the two counts, as
  a whole percent, rounded as \<open>Math.round\<close> rounds; 0 when the sum is 0.
\<close>

definition exact_rate :: "nat \<Rightarrow> nat \<Rightarrow> int" where
  "exact_rate successful failed =
     (if successful + failed = 0 then 0
      else Math_round (100 * of_nat successful / of_nat (successful + failed)))"

text \<open>A snapshot with the given successful and failed counts.\<close>

definition counts :: "count \<Rightarrow> count \<Rightarrow> status" where
  "counts a b =
     \<lparr>progress_percent = Count 50, current_address = None, total_processed = Absent,
      successful_geocodes = a, failed_geocodes = b, processing_complete = False,
      results_log = None\<rparr>"

subsection \<open>A session, event by event\<close>

definition addresses_csv :: upload_file where
  "addresses_csv = \<lparr>name = ''addresses.csv'', content = []\<rparr>"

definition uploaded :: event where
  "uploaded =
     Arrive (Upload_response (Response True (Json
       \<lparr>res_session_id = Some ''s1'', res_filename = Some ''addresses.csv'',
        res_headers = [''Street Address'', ''City'', ''State'', ''Zip''],
        res_error = None\<rparr>)))"

definition launched :: event where
  "launched = Arrive (Process_response (Response True (Json None)))"

definition stopped :: event where
  "stopped = Arrive (Stop_response (Response True (Json ())))"

definition snapshot :: "bool \<Rightarrow> status" where
  "snapshot flag =
     \<lparr>progress_percent = Count 10, current_address = None, total_processed = Count 1,
      successful_geocodes = Count 1, failed_geocodes = Count 0, processing_complete = flag,
      results_log = Some [\<lparr>timestamp = ''12:00:00'', message = ''1 Main St'',
                           entry_type = ''success''\<rparr>]\<rparr>"

definition to_running :: "event list" where
  "to_running = [Choose_file addresses_csv, uploaded, Click_process, launched]"

definition running_page :: page where
  "running_page = run initial_page to_running"

definition uploaded_page :: page where
  "uploaded_page = run initial_page [Choose_file addresses_csv, uploaded]"

text \<open>The process button pressed twice before the first response arrives.\<close>

definition double_launch :: "event list" where
  "double_launch = [Click_process, Click_process, launched, launched]"

text \<open>A poll, a confirmed stop, and a second launch.\<close>

definition restart_cycle :: "event list" where
  "restart_cycle = [Tick 1, Click_stop, stopped, Click_process, launched, Tick 2]"

definition numbered_entry :: "nat \<Rightarrow> log_entry" where
  "numbered_entry i = \<lparr>timestamp = show_nat i, message = ''row'', entry_type = ''success''\<rparr>"

section \<open>File names\<close>

lemma lower_char_eq_iff:
  assumes u: "of_char u = (k::nat)" and l: "of_char l = k + 32" and k: "65 \<le> k" "k \<le> 90"
  shows "lower_char c = l \<longleftrightarrow> c = l \<or> c = u"
proof -
  let ?n = "of_char c :: nat"
  have cl: "c = l \<longleftrightarrow> ?n = k + 32"
    using l of_char_eq_iff[of c l, where ?'a = nat] by simp
  have cu: "c = u \<longleftrightarrow> ?n = k"
    using u of_char_eq_iff[of c u, where ?'a = nat] by simp
  show ?thesis
  proof (cases "65 \<le> ?n \<and> ?n \<le> 90")
    case True
    have "lower_char c = l \<longleftrightarrow> (of_char (lower_char c) :: nat) = of_char l"
      by simp
    also have "(of_char (lower_char c) :: nat) = (?n + 32) mod 256"
      using True by (simp add: lower_char_def)
    also have "(?n + 32) mod 256 = ?n + 32"
      using True by simp
    finally have "lower_char c = l \<longleftrightarrow> ?n = k"
      using l by simp
    with True k cl cu show ?thesis by auto
  next
    case False
    then have "lower_char c = c"
      by (auto simp add: lower_char_def Let_def)
    with False k cl cu show ?thesis by auto
  qed
qed

lemma lower_char_below_A:
  assumes "(of_char l :: nat) < 65"
  shows "lower_char c = l \<longleftrightarrow> c = l"
proof -
  let ?n = "of_char c :: nat"
  have cl: "c = l \<longleftrightarrow> ?n = of_char l"
    using of_char_eq_iff[of c l, where ?'a = nat] by simp
  show ?thesis
  proof (cases "65 \<le> ?n \<and> ?n \<le> 90")
    case True
    have "lower_char c = l \<longleftrightarrow> (of_char (lower_char c) :: nat) = of_char l"
      by simp
    also have "(of_char (lower_char c) :: nat) = (?n + 32) mod 256"
      using True by (simp add: lower_char_def)
    also have "(?n + 32) mod 256 = ?n + 32"
      using True by simp
    finally have "lower_char c = l \<longleftrightarrow> ?n + 32 = of_char l" .
    with True assms cl show ?thesis by auto
  next
    case False
    then have "lower_char c = c"
      by (auto simp add: lower_char_def Let_def)
    then show ?thesis by simp
  qed
qed

lemma lower_char_c: "lower_char x = CHR ''c'' \<longleftrightarrow> x = CHR ''c'' \<or> x = CHR ''C''"
  by (rule lower_char_eq_iff[where k = 67]) simp_all

lemma lower_char_s: "lower_char x = CHR ''s'' \<longleftrightarrow> x = CHR ''s'' \<or> x = CHR ''S''"
  by (rule lower_char_eq_iff[where k = 83]) simp_all

lemma lower_char_v: "lower_char x = CHR ''v'' \<longleftrightarrow> x = CHR ''v'' \<or> x = CHR ''V''"
  by (rule lower_char_eq_iff[where k = 86]) simp_all

lemma lower_char_dot: "lower_char x = CHR ''.'' \<longleftrightarrow> x = CHR ''.''"
  by (rule lower_char_below_A) simp

lemma list_of_length_four:
  "length t = Suc (Suc (Suc (Suc 0))) \<Longrightarrow> \<exists>d c s v. t = [d, c, s, v]"
  by (auto simp: length_Suc_conv)

lemma last_four:
  assumes "4 \<le> length n"
  obtains stem d c s v where "n = stem @ [d, c, s, v]"
proof -
  let ?t = "drop (length n - 4) n"
  have "length ?t = Suc (Suc (Suc (Suc 0)))" using assms by simp
  from list_of_length_four[OF this] obtain d c s v where "?t = [d, c, s, v]"
    by blast
  then have "n = take (length n - 4) n @ [d, c, s, v]"
    by (metis append_take_drop_id)
  then show thesis by (rule that)
qed

text \<open>The script's test on the lowered name is the specification's rule.\<close>

lemma endsWith_csv: "endsWith (toLowerCase n) ''.csv'' \<longleftrightarrow> csv_extension n"
proof (cases "4 \<le> length n")
  case True
  then obtain stem d c s v where n: "n = stem @ [d, c, s, v]"
    by (rule last_four)
  show ?thesis
    by (simp add: n endsWith_def toLowerCase_def csv_extension_def
        lower_char_c lower_char_s lower_char_v lower_char_dot)
next
  case False
  have "\<not> csv_extension n"
  proof
    assume "csv_extension n"
    then obtain v s c d stem where "rev n = v # s # c # d # stem"
      by (auto simp: csv_extension_def split: list.splits)
    then have "4 \<le> length (rev n)" by simp
    with False show False by simp
  qed
  with False show ?thesis
    by (simp add: endsWith_def toLowerCase_def)
qed

text \<open>
  Claim C6. A file is accepted exactly when its name ends in \<open>.csv\<close> in any mix of case:
  then the upload request is sent and no alert is shown. Any other file only adds the
  alert "Please select a CSV file." to the page: no request is sent and no call is left
  waiting. \<open>FILE.CSV\<close> is accepted and \<open>file.txt\<close> is refused.
\<close>

theorem upload_accepts_csv_names_only:
  "(if csv_extension (name file)
    then requests (handleFileUpload file s)
           = requests s @ [\<lparr>http_method = ''POST'', url = ''/upload'', body = Form_data file\<rparr>]
         \<and> alerts (handleFileUpload file s) = alerts s
    else handleFileUpload file s = s\<lparr>alerts := alerts s @ [''Error: Please select a CSV file.'']\<rparr>
         \<and> requests (handleFileUpload file s) = requests s
         \<and> inflight (handleFileUpload file s) = inflight s)
   \<and> csv_extension ''FILE.CSV'' \<and> \<not> csv_extension ''file.txt''"
  by (simp add: handleFileUpload_def endsWith_csv showError_def fetch_def showLoading_def
      csv_extension_def)

section \<open>Column mapping\<close>

text \<open>
  Claim C7. With a session, the process request is sent exactly when all four columns are
  bound to a non-empty header, and it carries the four bindings. When a column is unbound
  no request is sent, no call is left waiting, processing and timers are untouched, and
  the page shows one alert.
\<close>

theorem processFile_requires_all_columns:
  "(if all_bound s
    then (if truthy (currentSessionId s)
          then requests (processFile s)
                 = requests s @ [\<lparr>http_method = ''POST'', url = ''/process'',
                      body = Json_body \<lparr>session_id = currentSessionId s,
                        address_column = addressColumn_value s,
                        city_column = cityColumn_value s,
                        state_column = stateColumn_value s,
                        zip_column = zipColumn_value s\<rparr>\<rparr>]
               \<and> inflight (processFile s) = inflight s @ [Awaiting_process]
               \<and> alerts (processFile s) = alerts s
          else requests (processFile s) = requests s
               \<and> inflight (processFile s) = inflight s
               \<and> alerts (processFile s) = alerts s @ [''Error: No file uploaded''])
    else requests (processFile s) = requests s
         \<and> inflight (processFile s) = inflight s
         \<and> isProcessing (processFile s) = isProcessing s
         \<and> intervals (processFile s) = intervals s
         \<and> alerts (processFile s)
             = alerts s @ [if truthy (currentSessionId s)
                           then ''Error: Please select all column mappings''
                           else ''Error: No file uploaded''])"
  by (auto simp add: processFile_def all_bound_def showError_def fetch_def Let_def)

section \<open>The log\<close>

lemma foldl_snoc_map: "foldl (\<lambda>children entry. children @ [g entry]) acc xs = acc @ map g xs"
  by (induction xs arbitrary: acc) simp_all

lemma slice_from_neg: "0 < k \<Longrightarrow> slice_from (- int k) xs = drop (length xs - k) xs"
proof -
  assume "0 < k"
  then have "nat (max (int (length xs) + - int k) 0) = length xs - k"
    by (simp add: max_def) linarith
  with \<open>0 < k\<close> show ?thesis
    by (simp add: slice_from_def Let_def)
qed

text \<open>
  Claim C9. A log of \<open>n > 0\<close> entries is rendered as \<open>min n 50\<close> entries: the last
  \<open>min n 50\<close> of the log, in the log's order.
\<close>

theorem log_shows_last_fifty:
  assumes "entries \<noteq> []"
  shows "resultsLog (updateResultsLog (Some entries) s)
           = map log_entry_div (drop (length entries - min (length entries) 50) entries)
       \<and> length (resultsLog (updateResultsLog (Some entries) s)) = min (length entries) 50"
proof -
  have "slice_from (- 50) entries = drop (length entries - 50) entries"
    using slice_from_neg[of 50 entries] by simp
  moreover have "length entries - min (length entries) 50 = length entries - 50"
    by (simp add: min_def)
  ultimately show ?thesis
    using assms by (simp add: updateResultsLog_def Let_def foldl_snoc_map)
qed

text \<open>A log of the 200 entries numbered 0 to 199 is rendered as the entries 150 to 199.\<close>

theorem log_shows_last_fifty_witness:
  "map numbered_entry [0..<200] \<noteq> []
   \<and> resultsLog (updateResultsLog (Some (map numbered_entry [0..<200])) initial_page)
       = map log_entry_div (map numbered_entry [150..<200])
   \<and> length (resultsLog (updateResultsLog (Some (map numbered_entry [0..<200])) initial_page)) = 50"
proof -
  have ne: "map numbered_entry [0..<200] \<noteq> []" by simp
  show ?thesis
    using log_shows_last_fifty[OF ne, of initial_page] ne by (simp add: drop_map)
qed

text \<open>
  Claim C10. Called with \<open>null\<close>, \<open>undefined\<close> or an empty log, \<open>updateResultsLog\<close> returns
  at once: the page, with the entries rendered before and the scroll position, is unchanged.
\<close>

theorem empty_log_leaves_view:
  "updateResultsLog None s = s \<and> updateResultsLog (Some []) s = s"
  by (simp add: updateResultsLog_def)

section \<open>The session of the example\<close>

lemma uploaded_page_eval:
  "(let s = uploaded_page
    in currentSessionId s = Some ''s1'' \<and> \<not> isProcessing s \<and> processingInterval s = None
       \<and> intervals s = [] \<and> next_interval s = 1 \<and> inflight s = [] \<and> alerts s = []
       \<and> console s = [] \<and> downloadSection_display s = [] \<and> \<not> downloadBtn_onclick s
       \<and> addressColumn_value s = ''Street Address'' \<and> cityColumn_value s = ''City''
       \<and> stateColumn_value s = ''State'' \<and> zipColumn_value s = ''Zip''
       \<and> length (requests s) = 1)"
  by code_simp

lemma uploaded_page_facts:
  "currentSessionId uploaded_page = Some ''s1''" "\<not> isProcessing uploaded_page"
  "processingInterval uploaded_page = None" "intervals uploaded_page = []"
  "next_interval uploaded_page = 1"
  "inflight uploaded_page = []" "alerts uploaded_page = []" "console uploaded_page = []"
  "downloadSection_display uploaded_page = []" "\<not> downloadBtn_onclick uploaded_page"
  "addressColumn_value uploaded_page = ''Street Address''"
  "cityColumn_value uploaded_page = ''City''"
  "stateColumn_value uploaded_page = ''State''"
  "zipColumn_value uploaded_page = ''Zip''"
  "length (requests uploaded_page) = 1"
  using uploaded_page_eval by (simp_all add: Let_def)

lemmas step_defs =
  run_def resume_def updateProgress_def stopProcessing_def fetch_def truthy_def
  stopProcessing_resume_def updateProgress_resume_def clearInterval_def
  completeProcessing_def showDownloadSection_def updateProgressDisplay_def
  updateResultsLog_def showError_def console_error_def processFile_def
  processFile_resume_def startProcessing_def setInterval_def showProgressSection_def
  showResultsSection_def Let_def

lemma running_page_from_upload: "running_page = run uploaded_page [Click_process, launched]"
  by (simp add: running_page_def uploaded_page_def to_running_def run_def)

lemma running_page_facts:
  "currentSessionId running_page = Some ''s1''" "isProcessing running_page"
  "processingInterval running_page = Some 1" "intervals running_page = [1]"
  "next_interval running_page = 2"
  "inflight running_page = []" "alerts running_page = []" "console running_page = []"
  "downloadSection_display running_page = []" "\<not> downloadBtn_onclick running_page"
  "addressColumn_value running_page = ''Street Address''"
  "cityColumn_value running_page = ''City''"
  "stateColumn_value running_page = ''State''"
  "zipColumn_value running_page = ''Zip''"
  "length (requests running_page) = 2"
  by (simp_all add: running_page_from_upload step_defs uploaded_page_facts launched_def)

section \<open>Timers\<close>

lemma timer_inv_transfer:
  "timer_inv s \<Longrightarrow> timer_state s' = timer_state s \<Longrightarrow> timer_inv s'"
  by (auto simp add: timer_state_def timer_inv_def split: option.splits)

lemma timer_state_showError [simp]: "timer_state (showError m s) = timer_state s"
  by (simp add: timer_state_def showError_def)

lemma timer_state_fetch [simp]: "timer_state (fetch r k s) = timer_state s"
  by (simp add: timer_state_def fetch_def)

lemma timer_state_inflight [simp]: "timer_state (s\<lparr>inflight := x\<rparr>) = timer_state s"
  by (simp add: timer_state_def)

lemma timer_state_handleFileUpload [simp]: "timer_state (handleFileUpload f s) = timer_state s"
  by (simp add: handleFileUpload_def) (simp add: timer_state_def showLoading_def)

lemma timer_state_set_select [simp]: "timer_state (set_select c v s) = timer_state s"
  by (simp add: timer_state_def set_select_def Let_def)

lemma timer_state_foldl_select:
  "timer_state (foldl (\<lambda>s' (column, patternList).
              case first_pattern_match patternList headers of
                Some v \<Rightarrow> set_select column v s'
              | None \<Rightarrow> s') s ps) = timer_state s"
  by (induction ps arbitrary: s) (auto split: option.splits)

lemma timer_state_autoSelectColumns [simp]:
  "timer_state (autoSelectColumns headers s) = timer_state s"
  by (simp add: autoSelectColumns_def timer_state_foldl_select)

lemma timer_state_populateColumnSelects [simp]:
  "timer_state (populateColumnSelects headers s) = timer_state s"
  by (simp add: populateColumnSelects_def Let_def) (simp add: timer_state_def)

lemma timer_state_showConfigSection [simp]:
  "timer_state (showConfigSection f s) = timer_state s"
  by (simp add: showConfigSection_def timer_state_def)

lemma timer_state_currentSessionId [simp]:
  "timer_state (s\<lparr>currentSessionId := x\<rparr>) = timer_state s"
  by (simp add: timer_state_def)

lemma timer_state_hideLoading [simp]: "timer_state (hideLoading s) = timer_state s"
  by (simp add: timer_state_def hideLoading_def)

lemma timer_state_handleFileUpload_resume [simp]:
  "timer_state (handleFileUpload_resume r s) = timer_state s"
  by (simp add: handleFileUpload_resume_def Let_def split: fetched.splits parsed.splits)

lemma timer_state_processFile [simp]: "timer_state (processFile s) = timer_state s"
  by (simp add: processFile_def Let_def)

lemma timer_state_stopProcessing [simp]: "timer_state (stopProcessing s) = timer_state s"
  by (simp add: stopProcessing_def)

lemma timer_state_updateProgress [simp]: "timer_state (updateProgress s) = timer_state s"
  by (simp add: updateProgress_def)

lemma timer_state_updateProgressDisplay [simp]:
  "timer_state (updateProgressDisplay st s) = timer_state s"
  by (simp add: updateProgressDisplay_def Let_def timer_state_def)

lemma timer_state_updateResultsLog [simp]:
  "timer_state (updateResultsLog l s) = timer_state s"
  by (simp add: updateResultsLog_def Let_def timer_state_def split: option.splits)

lemma timer_state_console_error [simp]: "timer_state (console_error m s) = timer_state s"
  by (simp add: timer_state_def console_error_def)

text \<open>\<open>startProcessing\<close> adds a timer and clears none.\<close>

lemma intervals_startProcessing:
  "intervals (startProcessing s) = intervals s @ [next_interval s]"
  by (simp add: startProcessing_def setInterval_def showResultsSection_def
      showProgressSection_def Let_def)

lemma timer_inv_startProcessing:
  "\<not> isProcessing s \<Longrightarrow> timer_inv s \<Longrightarrow> timer_inv (startProcessing s)"
  by (simp add: timer_inv_def startProcessing_def setInterval_def showResultsSection_def
      showProgressSection_def Let_def)

lemma timer_inv_completeProcessing: "timer_inv s \<Longrightarrow> timer_inv (completeProcessing s)"
  by (auto simp add: timer_inv_def completeProcessing_def clearInterval_def
      showDownloadSection_def split: option.splits if_splits)

lemma timer_inv_stopProcessing_resume:
  "timer_inv s \<Longrightarrow> timer_inv (stopProcessing_resume r s)"
  by (auto simp add: timer_inv_def stopProcessing_resume_def clearInterval_def showError_def
      split: option.splits if_splits fetched.splits)

lemma timer_inv_updateProgress_resume:
  "timer_inv s \<Longrightarrow> timer_inv (updateProgress_resume r s)"
proof -
  assume inv: "timer_inv s"
  have a: "timer_inv (console_error m s)" for m
    using inv by (rule timer_inv_transfer) simp
  have b: "timer_inv (updateResultsLog l (updateProgressDisplay st s))" for l st
    using inv by (rule timer_inv_transfer) simp
  show ?thesis
    by (simp add: updateProgress_resume_def Let_def a b inv timer_inv_completeProcessing
        split: fetched.splits parsed.splits)
qed

lemma timer_inv_processFile_resume:
  assumes "timer_inv s" "\<not> isProcessing s \<or> (\<forall>b. r \<noteq> Response True (Json b))"
  shows "timer_inv (processFile_resume r s)"
proof -
  have a: "timer_inv (showError m s)" for m
    using assms(1) by (rule timer_inv_transfer) simp
  show ?thesis
    using assms
    by (auto simp add: processFile_resume_def a timer_inv_startProcessing
        split: fetched.splits parsed.splits)
qed

lemma timer_inv_resume:
  assumes "timer_inv s"
    and "\<And>s'. timer_inv s' \<Longrightarrow> isProcessing s' = isProcessing s \<Longrightarrow> timer_inv (f s')"
  shows "timer_inv (resume k f s)"
proof -
  let ?s = "s\<lparr>inflight := remove1 k (inflight s)\<rparr>"
  have "timer_inv ?s"
    using assms(1) by (rule timer_inv_transfer) simp
  moreover have "isProcessing ?s = isProcessing s"
    by simp
  ultimately have "timer_inv (f ?s)"
    by (rule assms(2))
  with assms(1) show ?thesis
    by (simp add: resume_def)
qed

text \<open>Every event keeps the timer discipline, a launch provided it finds processing inactive.\<close>

lemma timer_inv_step:
  assumes inv: "timer_inv s" and idle: "launches s e \<Longrightarrow> \<not> isProcessing s"
  shows "timer_inv (step s e)"
proof (cases e)
  case (Choose_file f)
  with inv show ?thesis by (auto intro: timer_inv_transfer)
next
  case (Select_column c v)
  with inv show ?thesis by (auto intro: timer_inv_transfer)
next
  case Click_process
  with inv show ?thesis by (auto intro: timer_inv_transfer)
next
  case Click_stop
  with inv show ?thesis by (auto intro: timer_inv_transfer)
next
  case (Tick h)
  with inv show ?thesis by (auto intro: timer_inv_transfer)
next
  case (Arrive r)
  show ?thesis
  proof (cases r)
    case (Upload_response x)
    have "timer_inv (resume Awaiting_upload (handleFileUpload_resume x) s)"
      using inv by (rule timer_inv_resume) (auto intro: timer_inv_transfer)
    with Arrive Upload_response show ?thesis by simp
  next
    case (Process_response x)
    have "timer_inv (resume Awaiting_process (processFile_resume x) s)"
    proof (cases "Awaiting_process \<in> set (inflight s)")
      case True
      have "\<not> isProcessing s \<or> (\<forall>b. x \<noteq> Response True (Json b))"
        using idle Arrive Process_response True by auto
      then show ?thesis
        using inv by (intro timer_inv_resume timer_inv_processFile_resume) auto
    next
      case False
      with inv show ?thesis by (simp add: resume_def)
    qed
    with Arrive Process_response show ?thesis by simp
  next
    case (Stop_response x)
    have "timer_inv (resume Awaiting_stop (stopProcessing_resume x) s)"
      using inv by (rule timer_inv_resume) (rule timer_inv_stopProcessing_resume)
    with Arrive Stop_response show ?thesis by simp
  next
    case (Status_response x)
    have "timer_inv (resume Awaiting_status (updateProgress_resume x) s)"
      using inv by (rule timer_inv_resume) (rule timer_inv_updateProgress_resume)
    with Arrive Status_response show ?thesis by simp
  qed
qed

lemma timer_inv_run:
  "timer_inv s \<Longrightarrow> idle_launches s events \<Longrightarrow> timer_inv (run s (take k events))"
proof (induction events arbitrary: s k)
  case Nil
  then show ?case by (simp add: run_def)
next
  case (Cons e es)
  show ?case
  proof (cases k)
    case 0
    with Cons.prems show ?thesis by (simp add: run_def)
  next
    case (Suc j)
    have "timer_inv (step s e)"
      using Cons.prems by (intro timer_inv_step) (auto split: if_splits)
    moreover have "idle_launches (step s e) es"
      using Cons.prems by simp
    ultimately have "timer_inv (run (step s e) (take j es))"
      by (rule Cons.IH)
    with Suc show ?thesis by (simp add: run_def)
  qed
qed

lemma timer_inv_at_most_one: "timer_inv s \<Longrightarrow> length (intervals s) \<le> 1"
  by (auto simp add: timer_inv_def split: if_splits option.splits)

text \<open>
  On a page that keeps the timer discipline (the loaded page does), in every sequence of
  events in which each launch of the polling loop finds processing inactive, at every
  moment at most one timer is live: the one in \<open>processingInterval\<close> while processing is
  active, none otherwise. This covers start, stop and start again.
\<close>

lemma one_timer_when_launched_idle:
  assumes "timer_inv s" and "idle_launches s events"
  shows "length (intervals (run s (take k events))) \<le> 1
         \<and> timer_inv (run s (take k events))"
  using timer_inv_run[OF assms] timer_inv_at_most_one by blast

lemma restart_cycle_keeps_one_timer:
  "timer_inv running_page \<and> idle_launches running_page restart_cycle
   \<and> intervals (run running_page (take 3 restart_cycle)) = []
   \<and> intervals (run running_page (take 5 restart_cycle)) = [2]"
  by (simp add: timer_inv_def restart_cycle_def step_defs running_page_facts launched_def
      stopped_def)

text \<open>
  Claim C2. The claim asks for at most one live timer at any time, a second launch while
  running included, and that a new polling loop first clears the timer before it.
  \<open>startProcessing\<close> clears nothing and overwrites the only handle. With a file uploaded,
  the process button is pressed twice before the first response arrives: it is hidden only
  once a response is in. Both responses run \<open>startProcessing\<close>, and the timers 1 and 2 are
  both live while \<open>processingInterval\<close> holds only 2. A confirmed stop then clears timer 2,
  and timer 1 stays live.
\<close>

theorem double_launch_leaves_two_timers:
  "(let s = run uploaded_page double_launch;
        s' = run s [Click_stop, stopped]
    in intervals uploaded_page = [] \<and> intervals s = [1, 2]
       \<and> processingInterval s = Some 2 \<and> isProcessing s
       \<and> \<not> isProcessing s' \<and> intervals s' = [1])"
  by (simp add: double_launch_def step_defs uploaded_page_facts launched_def stopped_def)

section \<open>Completion\<close>

text \<open>
  When the response to a poll arrives \<open>ok\<close> with the completion flag set, the timer in
  \<open>processingInterval\<close> is cleared (so that, on a page that keeps the timer discipline, no
  timer is live any more), processing is no longer active, the download section is shown
  with its button armed, the process button is back, and the text says so. A tick that
  fires afterwards returns at the guard, fetches nothing and leaves the page as it is.
\<close>

lemma complete_snapshot_effects:
  assumes "Awaiting_status \<in> set (inflight s)" and "processing_complete st"
  shows "let s' = step s (Arrive (Status_response (Response True (Json st))))
         in (case processingInterval s of Some h \<Rightarrow> h \<notin> set (intervals s') | None \<Rightarrow> True)
            \<and> (timer_inv s \<longrightarrow> intervals s' = [])
            \<and> \<not> isProcessing s'
            \<and> downloadSection_display s' = ''block'' \<and> downloadBtn_onclick s'
            \<and> processBtn_display s' = ''inline-block'' \<and> stopBtn_display s' = ''none''
            \<and> progressText s' = ''Processing complete!''
            \<and> (\<forall>h. step s' (Tick h) = s')"
  using assms
  by (auto simp add: resume_def updateProgress_resume_def Let_def completeProcessing_def
      showDownloadSection_def clearInterval_def updateProgressDisplay_def updateResultsLog_def
      updateProgress_def timer_inv_def
      split: option.splits if_splits)

text \<open>
  Claim C3. The claim asks that a snapshot with the completion flag stops the recurring
  tick and that no tick occurs afterwards. \<open>completeProcessing\<close> clears the timer whose
  handle \<open>processingInterval\<close> holds, and no other. After the process button was pressed
  twice, timers 1 and 2 are live; timer 1 ticks, and its poll is answered with the
  completion flag set. The session is completed and the download is shown, as the claim
  says, but timer 1 is still live: it keeps firing, and once processing is launched again
  its tick polls beside the new timer 3.
\<close>

theorem leaked_timer_survives_completion:
  "(let s = run uploaded_page (double_launch @ [Tick 1]);
        s' = step s (Arrive (Status_response (Response True (Json (snapshot True)))));
        s'' = run s' [Click_process, launched]
    in intervals s = [1, 2] \<and> processingInterval s = Some 2
       \<and> Awaiting_status \<in> set (inflight s)
       \<and> \<not> isProcessing s' \<and> downloadSection_display s' = ''block''
       \<and> progressText s' = ''Processing complete!''
       \<and> intervals s' = [1]
       \<and> intervals s'' = [1, 3]
       \<and> requests (step s'' (Tick 1))
            = requests s'' @ [\<lparr>http_method = ''GET'', url = ''/status/s1'', body = No_body\<rparr>])"
  by (simp add: double_launch_def step_defs uploaded_page_facts launched_def snapshot_def
      interpolate_def)

section \<open>Failures\<close>

text \<open>
  When the status fetch of a tick fails (a rejected fetch, a body that does not parse, or
  a response that is not \<open>ok\<close>), nothing of the page changes but the console: processing
  stays as active as it was, no timer is stopped, and the next tick of a live timer sends
  the status request again. A rejected fetch and a body that does not parse are logged to
  the console; a response that is not \<open>ok\<close> and parses is not.
\<close>

lemma status_failure_keeps_polling:
  assumes "Awaiting_status \<in> set (inflight s)" and "fetch_failed r"
  shows "let s' = step s (Arrive (Status_response r))
         in s' = s\<lparr>inflight := remove1 Awaiting_status (inflight s), console := console s'\<rparr>
            \<and> isProcessing s' = isProcessing s \<and> intervals s' = intervals s
            \<and> processingInterval s' = processingInterval s
            \<and> console s'
                = (case r of
                     Rejected msg \<Rightarrow> console s @ [''Failed to update progress: '' @ msg]
                   | Response ok (Unparseable msg) \<Rightarrow>
                       console s @ [''Failed to update progress: '' @ msg]
                   | Response ok (Json st) \<Rightarrow> console s)
            \<and> (\<forall>h. h \<in> set (intervals s) \<and> isProcessing s \<and> truthy (currentSessionId s) \<longrightarrow>
                  requests (step s' (Tick h))
                    = requests s' @ [\<lparr>http_method = ''GET'',
                        url = ''/status/'' @ interpolate (currentSessionId s), body = No_body\<rparr>])"
  using assms
  by (auto simp add: resume_def updateProgress_resume_def Let_def fetch_failed_def
      console_error_def updateProgress_def fetch_def
      split: fetched.splits parsed.splits)

text \<open>
  Claim C5. The claim asks that every failed status fetch, a response that is not \<open>ok\<close>
  included, is logged for diagnostics. The script logs a rejected fetch and a body that
  does not parse, but a response that is not \<open>ok\<close> and parses leaves the page exactly as
  it was: nothing is logged. Here the first poll of the running session is answered that
  way; processing stays active and timer 1 stays live, as the claim says, and the console
  stays empty, which the claim denies.
\<close>

theorem status_not_ok_is_not_logged:
  "updateProgress_resume (Response False (Json st)) s = s
   \<and> (let s1 = step running_page (Tick 1);
           s2 = step s1 (Arrive (Status_response (Response False (Json (snapshot False)))))
       in Awaiting_status \<in> set (inflight s1)
          \<and> fetch_failed (Response False (Json (snapshot False)))
          \<and> console s1 = [] \<and> console s2 = []
          \<and> isProcessing s2 \<and> intervals s2 = [1])"
  by (simp add: step_defs running_page_facts fetch_failed_def)

text \<open>What the script does on a rejected status fetch.\<close>

lemma status_rejected_is_logged:
  "updateProgress_resume (Rejected msg) s
     = s\<lparr>console := console s @ [''Failed to update progress: '' @ msg]\<rparr>"
  by (simp add: updateProgress_resume_def console_error_def)

text \<open>
  Claim C4. The claim asks that every failed stop request shows an error. The script
  shows one when the fetch is rejected, but a response that is not \<open>ok\<close> leaves the page
  exactly as it was: no alert. Here the stop button of the running session is pressed
  and the server answers with a response that is not \<open>ok\<close>; processing stays active and
  timer 1 stays live, as the claim says, and no alert is shown, which the claim denies.
\<close>

theorem stop_refused_shows_no_error:
  "stopProcessing_resume (Response False b) s = s
   \<and> (let s1 = run running_page [Click_stop];
           s2 = step s1 (Arrive (Stop_response (Response False (Json ()))))
       in Awaiting_stop \<in> set (inflight s1) \<and> alerts s1 = [] \<and> alerts s2 = []
          \<and> isProcessing s2 \<and> intervals s2 = [1])"
  by (simp add: step_defs running_page_facts)

text \<open>What the script does on the other failure of a stop request, a rejected fetch.\<close>

lemma stop_rejected_shows_error:
  "stopProcessing_resume (Rejected msg) s
     = s\<lparr>alerts := alerts s @ [''Error: Failed to stop processing: '' @ msg]\<rparr>"
  by (simp add: stopProcessing_resume_def showError_def)

section \<open>A snapshot after the stop\<close>

text \<open>A tick that starts when processing is not active returns at the guard.\<close>

lemma tick_when_idle: "\<not> isProcessing s \<Longrightarrow> step s (Tick h) = s"
  by (simp add: updateProgress_def)

text \<open>
  Claim C1. The claim asks that no snapshot changes the session once a stop has
  succeeded, also when its fetch was in flight. The script tests \<open>isProcessing\<close> only
  before the fetch. Here a poll of the running session is in flight when the stop is
  confirmed: the page says "Processing stopped by user" and shows no download. Then the
  poll's response arrives with the completion flag set, and the page says "Processing
  complete!" and shows the download section.
\<close>

theorem snapshot_in_flight_overrides_stop:
  "(let s = run running_page [Tick 1, Click_stop, stopped];
        s' = step s (Arrive (Status_response (Response True (Json (snapshot True)))))
    in \<not> isProcessing s \<and> intervals s = [] \<and> progressText s = ''Processing stopped by user''
       \<and> downloadSection_display s = [] \<and> \<not> downloadBtn_onclick s
       \<and> Awaiting_status \<in> set (inflight s)
       \<and> progressText s' = ''Processing complete!''
       \<and> downloadSection_display s' = ''block'' \<and> downloadBtn_onclick s')"
  by (simp add: step_defs running_page_facts stopped_def snapshot_def)

section \<open>The success rate\<close>

subsection \<open>Rounding to a double\<close>

lemma round_half_even_error: "\<bar>of_int (round_half_even x) - x\<bar> \<le> 1 / 2"
proof -
  have "of_int \<lfloor>x\<rfloor> \<le> x" "x < of_int \<lfloor>x\<rfloor> + 1"
    by linarith+
  then show ?thesis
    by (auto simp add: round_half_even_def Let_def)
qed

lemma round_half_even_of_int [simp]: "round_half_even (of_int k) = k"
  by (simp add: round_half_even_def)

lemma ilog2_le:
  assumes "0 < x"
  shows "2 powi ilog2 x \<le> x"
proof -
  obtain p q where pq: "quotient_of x = (p, q)"
    by (cases "quotient_of x")
  then have q: "0 < q" and x: "x = of_int p / of_int q"
    by (auto dest: quotient_of_denom_pos quotient_of_div)
  with assms have p: "0 < p"
    by (simp add: zero_less_divide_iff)
  let ?e0 = "bitlen p - bitlen q"
  show ?thesis
  proof (cases "2 powi ?e0 \<le> x")
    case True
    then show ?thesis by (simp add: ilog2_def pq)
  next
    case False
    have bp: "1 \<le> bitlen p" and bq: "1 \<le> bitlen q"
      using p q by (simp_all add: bitlen_alt_def)
    have "(2::int) ^ nat (bitlen p - 1) \<le> p"
      using bitlen_bounds[OF p] by simp
    then have lo: "(2::rat) ^ nat (bitlen p - 1) \<le> of_int p"
      by (metis of_int_le_iff of_int_numeral of_int_power)
    have "q < 2 ^ nat (bitlen q)"
      using bitlen_bounds[OF q] by simp
    then have hi: "of_int q \<le> (2::rat) ^ nat (bitlen q)"
      by (metis less_imp_le of_int_le_iff of_int_numeral of_int_power)
    have "?e0 - 1 = (bitlen p - 1) - bitlen q"
      by simp
    then have "(2::rat) powi (?e0 - 1) = 2 powi ((bitlen p - 1) - bitlen q)"
      by (rule arg_cong)
    also have "\<dots> = 2 powi (bitlen p - 1) / 2 powi (bitlen q)"
      by (rule power_int_diff) simp
    also have "\<dots> = 2 ^ nat (bitlen p - 1) / 2 ^ nat (bitlen q)"
      using bp bq by (simp add: power_int_def)
    also have "\<dots> \<le> of_int p / of_int q"
      using lo hi q p by (intro frac_le) simp_all
    finally have "(2::rat) powi (?e0 - 1) \<le> x"
      by (simp only: x)
    moreover have "ilog2 x = ?e0 - 1"
      using False by (simp add: ilog2_def pq)
    ultimately show ?thesis by simp
  qed
qed


lemma ilog2_lt_53:
  assumes "0 < x" "x < 2 ^ 53"
  shows "ilog2 x < 53"
proof (rule ccontr)
  assume "\<not> ilog2 x < 53"
  then have "53 \<le> ilog2 x" by simp
  then have "(2::rat) powi 53 \<le> 2 powi ilog2 x"
    by (intro power_int_increasing) simp_all
  also have "\<dots> \<le> x" using assms(1) by (rule ilog2_le)
  finally show False using assms(2) by simp
qed

lemma fl_error:
  assumes "0 < x"
  shows "\<bar>fl x - x\<bar> \<le> x / 2 ^ 53"
proof -
  define e where "e = ilog2 x - 52"
  define y where "y = x / 2 powi e"
  have pos: "(0::rat) < 2 powi e" by simp
  have x: "x = y * 2 powi e" by (simp add: y_def)
  have "fl x = of_int (round_half_even y) * 2 powi e"
    using assms by (simp add: fl_def e_def y_def Let_def)
  then have "\<bar>fl x - x\<bar> = \<bar>of_int (round_half_even y) - y\<bar> * 2 powi e"
    using pos by (simp add: x abs_mult left_diff_distrib[symmetric] del: power_int_def)
  also have "\<dots> \<le> (1 / 2) * 2 powi e"
    using round_half_even_error[of y] pos by (intro mult_right_mono) simp_all
  also have "(1 / 2) * (2::rat) powi e = 2 powi ilog2 x / 2 ^ 53"
  proof -
    have "(2::rat) powi ((ilog2 x - 53) + 1) = 2 powi (ilog2 x - 53) * 2 powi 1"
      by (rule power_int_add) simp
    moreover have "e = (ilog2 x - 53) + 1" by (simp add: e_def)
    ultimately have "(2::rat) powi e = 2 powi (ilog2 x - 53) * 2"
      by simp
    also have "(2::rat) powi (ilog2 x - 53) = 2 powi ilog2 x / 2 powi 53"
      by (rule power_int_diff) simp
    finally show ?thesis by simp
  qed
  also have "\<dots> \<le> x / 2 ^ 53"
    using ilog2_le[OF assms] by (simp add: divide_right_mono)
  finally show ?thesis .
qed

lemma fl_of_nat:
  assumes "n < 2 ^ 53"
  shows "fl (of_nat n) = of_nat n"
proof (cases "n = 0")
  case True
  then show ?thesis by (simp add: fl_def)
next
  case False
  define x :: rat where "x = of_nat n"
  have "(of_nat n :: rat) < of_nat (2 ^ 53)"
    using assms by (simp only: of_nat_less_iff)
  then have x: "0 < x" "x < 2 ^ 53"
    using False by (simp_all add: x_def)
  define d where "d = nat (52 - ilog2 x)"
  have e: "ilog2 x - 52 = - int d"
    using ilog2_lt_53[OF x] by (simp add: d_def)
  have pd: "(2::rat) powi (- int d) = inverse (2 ^ d)"
    by (simp add: power_int_minus)
  have "x / 2 powi (- int d) = x * 2 ^ d"
    by (simp add: pd divide_inverse)
  also have "\<dots> = of_int (int n * 2 ^ d)"
    by (simp add: x_def)
  finally have "round_half_even (x / 2 powi (- int d)) = int n * 2 ^ d"
    by (simp only: round_half_even_of_int)
  then have "fl x = of_int (int n * 2 ^ d) * 2 powi (- int d)"
    using x(1) by (simp add: fl_def e Let_def)
  also have "\<dots> = x"
    by (simp add: x_def pd)
  finally show ?thesis by (simp add: x_def)
qed

lemma ilog2_gt:
  assumes "0 < x"
  shows "x < 2 powi (ilog2 x + 1)"
proof -
  obtain p q where pq: "quotient_of x = (p, q)"
    by (cases "quotient_of x")
  then have q: "0 < q" and x: "x = of_int p / of_int q"
    by (auto dest: quotient_of_denom_pos quotient_of_div)
  with assms have p: "0 < p"
    by (simp add: zero_less_divide_iff)
  let ?e0 = "bitlen p - bitlen q"
  show ?thesis
  proof (cases "2 powi ?e0 \<le> x")
    case True
    have bp: "1 \<le> bitlen p" and bq: "1 \<le> bitlen q"
      using p q by (simp_all add: bitlen_alt_def)
    have "p < 2 ^ nat (bitlen p)"
      using bitlen_bounds[OF p] by simp
    then have hi: "of_int p < (2::rat) ^ nat (bitlen p)"
      by (metis of_int_less_iff of_int_numeral of_int_power)
    have "(2::int) ^ nat (bitlen q - 1) \<le> q"
      using bitlen_bounds[OF q] by simp
    then have lo: "(2::rat) ^ nat (bitlen q - 1) \<le> of_int q"
      by (metis of_int_le_iff of_int_numeral of_int_power)
    have "of_int p / of_int q < (2::rat) ^ nat (bitlen p) / 2 ^ nat (bitlen q - 1)"
      using hi lo p q by (intro frac_less) simp_all
    also have "\<dots> = 2 powi (bitlen p) / 2 powi (bitlen q - 1)"
      using bp bq by (simp add: power_int_def)
    also have "\<dots> = 2 powi (bitlen p - (bitlen q - 1))"
      by (rule power_int_diff[symmetric]) simp
    also have "bitlen p - (bitlen q - 1) = ?e0 + 1"
      by simp
    finally have "x < 2 powi (?e0 + 1)"
      by (simp only: x)
    moreover have "ilog2 x = ?e0"
      using True by (simp add: ilog2_def pq)
    ultimately show ?thesis by simp
  next
    case False
    then have "ilog2 x = ?e0 - 1"
      by (simp add: ilog2_def pq)
    with False show ?thesis by simp
  qed
qed

lemma fl_example: "fl (23 / 40) = 5179139571476070 / 2 ^ 53"
  by code_simp

text \<open>
  \<open>fl x\<close> is a double: a significand of 53 bits at the exponent of \<open>x\<close>. No number with
  an integer significand at that exponent is nearer to \<open>x\<close>.
\<close>

lemma round_half_even_nearest:
  "\<bar>of_int (round_half_even y) - y\<bar> \<le> \<bar>of_int k - y\<bar>"
proof -
  define f where "f = \<lfloor>y\<rfloor>"
  have f: "of_int f \<le> y" "y < of_int f + 1"
    unfolding f_def by linarith+
  have m: "round_half_even y = f \<and> y - of_int f \<le> 1 / 2
      \<or> round_half_even y = f + 1 \<and> 1 / 2 \<le> y - of_int f"
    by (auto simp add: round_half_even_def Let_def f_def)
  show ?thesis
  proof (cases "k \<le> f")
    case True
    then have "(of_int k :: rat) \<le> of_int f" by (simp only: of_int_le_iff)
    with f m show ?thesis by auto
  next
    case False
    then have "f + 1 \<le> k" by simp
    then have "(of_int (f + 1) :: rat) \<le> of_int k" by (simp only: of_int_le_iff)
    then have "of_int f + 1 \<le> (of_int k :: rat)" by simp
    with f m show ?thesis by auto
  qed
qed

lemma fl_significand:
  assumes "0 < x"
  shows "\<exists>m. fl x = of_int m * 2 powi (ilog2 x - 52) \<and> 2 ^ 52 \<le> m \<and> m \<le> 2 ^ 53"
proof -
  define e where "e = ilog2 x - 52"
  define y where "y = x / 2 powi e"
  define m where "m = round_half_even y"
  have pos: "(0::rat) < 2 powi e" by simp
  have "ilog2 x = e + 52" by (simp add: e_def)
  then have "(2::rat) powi ilog2 x = 2 powi (e + 52)" by (rule arg_cong)
  also have "\<dots> = 2 powi e * 2 powi 52" by (rule power_int_add) simp
  finally have lo: "2 powi e * 2 ^ 52 \<le> x"
    using ilog2_le[OF assms] by simp
  have "ilog2 x + 1 = e + 53" by (simp add: e_def)
  then have "(2::rat) powi (ilog2 x + 1) = 2 powi (e + 53)" by (rule arg_cong)
  also have "\<dots> = 2 powi e * 2 powi 53" by (rule power_int_add) simp
  finally have hi: "x < 2 powi e * 2 ^ 53"
    using ilog2_gt[OF assms] by simp
  have y: "2 ^ 52 \<le> y" "y < 2 ^ 53"
    using lo hi pos by (simp_all add: y_def pos_le_divide_eq pos_divide_less_eq mult.commute)
  have near: "\<bar>of_int m - y\<bar> \<le> 1 / 2"
    unfolding m_def by (rule round_half_even_error)
  have "(2::rat) ^ 52 - 1 < of_int m" "(of_int m :: rat) < 2 ^ 53 + 1"
    using near y by linarith+
  then have "(of_int (2 ^ 52 - 1) :: rat) < of_int m" "(of_int m :: rat) < of_int (2 ^ 53 + 1)"
    by simp_all
  then have "2 ^ 52 - 1 < m" "m < 2 ^ 53 + 1"
    by (simp_all only: of_int_less_iff)
  then have "2 ^ 52 \<le> m" "m \<le> 2 ^ 53" by simp_all
  moreover have "fl x = of_int m * 2 powi e"
    using assms by (simp add: fl_def e_def y_def m_def Let_def)
  ultimately show ?thesis unfolding e_def by blast
qed

lemma fl_nearest:
  assumes "0 < x"
  shows "\<bar>fl x - x\<bar> \<le> \<bar>of_int k * 2 powi (ilog2 x - 52) - x\<bar>"
proof -
  define e where "e = ilog2 x - 52"
  define y where "y = x / 2 powi e"
  have pos: "(0::rat) < 2 powi e" by simp
  have x: "x = y * 2 powi e" by (simp add: y_def)
  have "fl x = of_int (round_half_even y) * 2 powi e"
    using assms by (simp add: fl_def e_def y_def Let_def)
  then have "fl x - x = (of_int (round_half_even y) - y) * 2 powi e"
    by (simp add: x left_diff_distrib del: power_int_def)
  then have "\<bar>fl x - x\<bar> = \<bar>of_int (round_half_even y) - y\<bar> * \<bar>2 powi e\<bar>"
    by (simp only: abs_mult)
  also have "\<bar>(2::rat) powi e\<bar> = 2 powi e"
    using pos by simp
  also have "\<bar>of_int (round_half_even y) - y\<bar> * 2 powi e \<le> \<bar>of_int k - y\<bar> * 2 powi e"
    using round_half_even_nearest[of y k] pos by (intro mult_right_mono) simp_all
  also have "\<dots> = \<bar>(of_int k - y) * 2 powi e\<bar>"
    using pos by (simp add: abs_mult del: power_int_def)
  also have "(of_int k - y) * 2 powi e = of_int k * 2 powi e - x"
    by (simp add: x left_diff_distrib del: power_int_def)
  finally show ?thesis by (simp only: e_def)
qed

subsection \<open>The displayed rate\<close>

lemma near_round:
  assumes "\<bar>of_int r - E\<bar> \<le> 1 / 2"
  shows "r = Math_round E \<or> (r = Math_round E - 1 \<and> of_int (Math_round E) = E + 1 / 2)"
proof -
  define M where "M = Math_round E"
  have M: "of_int M \<le> E + 1 / 2" "E + 1 / 2 < of_int M + 1"
    unfolding M_def Math_round_def by linarith+
  have lo: "E - 1 / 2 \<le> of_int r" and hi: "of_int r \<le> E + 1 / 2"
    using assms by linarith+
  from hi have "r \<le> M"
    unfolding M_def Math_round_def by (simp only: le_floor_iff)
  moreover have "of_int M \<le> (of_int (r + 1) :: rat)"
  proof -
    have "of_int M \<le> of_int r + (1 :: rat)" using lo M(1) by linarith
    then show ?thesis by simp
  qed
  then have "M \<le> r + 1" by (simp only: of_int_le_iff)
  ultimately have "r = M \<or> r = M - 1" by linarith
  moreover have "of_int M = E + 1 / 2" if "r = M - 1"
  proof -
    have "of_int r = of_int M - (1::rat)" using that by simp
    with lo M(1) show ?thesis by linarith
  qed
  ultimately show ?thesis unfolding M_def by blast
qed

lemma rate_error:
  fixes S T :: nat
  assumes T: "0 < T" and S: "0 < S" "S \<le> T"
  defines "x \<equiv> (of_nat S / of_nat T :: rat)"
  shows "\<bar>fl (fl x * 100) - 100 * x\<bar> \<le> 300 / 2 ^ 53"
proof -
  have x: "0 < x" "x \<le> 1"
    using T S by (simp_all add: x_def)
  have q: "\<bar>fl x - x\<bar> \<le> x / 2 ^ 53"
    using x(1) by (rule fl_error)
  have "x / 2 ^ 53 \<le> 1 / 2 ^ 53"
    using x(2) by (rule divide_right_mono) simp
  with q have q1: "\<bar>fl x - x\<bar> \<le> 1 / 2 ^ 53" by linarith
  have "x / 2 ^ 53 < x"
    using x(1) by (simp add: field_simps)
  with q have qpos: "0 < fl x" by linarith
  have "(1::rat) / 2 ^ 53 \<le> 1" by simp
  with q1 x(2) have q2: "fl x \<le> 2" by linarith
  have "\<bar>fl (fl x * 100) - fl x * 100\<bar> \<le> fl x * 100 / 2 ^ 53"
    using qpos by (intro fl_error) simp
  also have "\<dots> \<le> 2 * 100 / 2 ^ 53"
    using q2 by (intro divide_right_mono mult_right_mono) simp_all
  finally have y: "\<bar>fl (fl x * 100) - fl x * 100\<bar> \<le> 2 * 100 / 2 ^ 53" .
  have "fl x * 100 - 100 * x = 100 * (fl x - x)"
    by (simp add: algebra_simps)
  then have "\<bar>fl x * 100 - 100 * x\<bar> = \<bar>100\<bar> * \<bar>fl x - x\<bar>"
    by (simp only: abs_mult)
  also have "\<dots> = 100 * \<bar>fl x - x\<bar>"
    by simp
  also have "\<dots> \<le> 100 * (1 / 2 ^ 53)"
    using q1 by (intro mult_left_mono) simp_all
  finally have z: "\<bar>fl x * 100 - 100 * x\<bar> \<le> 100 * (1 / 2 ^ 53)" .
  have "(2::rat) * 100 / 2 ^ 53 + 100 * (1 / 2 ^ 53) = 300 / 2 ^ 53" by simp
  with y z show ?thesis by linarith
qed


lemma rate_near:
  fixes S T :: nat
  assumes T: "0 < T" "T < 2 ^ 43" and S: "S \<le> T"
  defines "E \<equiv> (100 * of_nat S / of_nat T :: rat)"
  shows "\<bar>of_int (Math_round (fl (fl (of_nat S / of_nat T) * 100))) - E\<bar> \<le> 1 / 2"
proof (cases "S = 0")
  case True
  have "\<lfloor>(1::rat) / 2\<rfloor> = 0"
    by (rule floor_unique) simp_all
  with True show ?thesis by (simp add: E_def fl_def Math_round_def)
next
  case False
  define y where "y = fl (fl (of_nat S / of_nat T) * 100)"
  define r where "r = Math_round y"
  have err: "\<bar>y - E\<bar> \<le> 300 / 2 ^ 53"
    using rate_error[of T S] T False S by (simp add: y_def E_def)
  have r: "of_int r \<le> y + 1 / 2" "y + 1 / 2 < of_int r + 1"
    unfolding r_def Math_round_def by linarith+
  have Tpos: "(0::rat) < of_nat T" using T by simp
  have "(of_nat T :: rat) < of_nat (2 ^ 43)"
    using T(2) by (simp only: of_nat_less_iff)
  then have Tlt: "(of_nat T :: rat) < 2 ^ 43" by simp
  have small: "(300::rat) / 2 ^ 53 < 1 / (2 * of_nat T)"
  proof -
    have "(300::rat) / 2 ^ 53 < 1 / 2 ^ 44" by simp
    also have "\<dots> \<le> 1 / (2 * of_nat T)"
      using Tpos Tlt by (intro divide_left_mono) simp_all
    finally show ?thesis .
  qed
  have ET: "E * of_nat T = 100 * of_nat S"
    using Tpos by (simp add: E_def)
  have up: "of_int r - E \<le> 1 / 2"
  proof (rule ccontr)
    assume "\<not> of_int r - E \<le> 1 / 2"
    then have "1 / 2 < of_int r - E" by simp
    then have "(1 / 2) * of_nat T < (of_int r - E) * of_nat T"
      using Tpos by (simp only: mult_less_cancel_right_pos)
    then have "(0::rat) < (2 * of_int r - 1) * of_nat T - 200 * of_nat S"
      using ET by (simp add: algebra_simps)
    also have "(2 * of_int r - 1) * of_nat T - 200 * of_nat S
        = (of_int ((2 * r - 1) * int T - 200 * int S) :: rat)"
      by simp
    finally have "0 < (2 * r - 1) * int T - 200 * int S"
      by (simp only: of_int_0_less_iff)
    then have "1 \<le> (2 * r - 1) * int T - 200 * int S" by simp
    then have "(1::rat) \<le> of_int ((2 * r - 1) * int T - 200 * int S)"
      by (simp only: of_int_1_le_iff)
    then have "(1::rat) \<le> (2 * of_int r - 1) * of_nat T - 200 * of_nat S"
      by simp
    then have "1 \<le> 2 * of_nat T * (of_int r - 1 / 2 - E)"
      using ET by (simp add: algebra_simps)
    then have "1 / (2 * of_nat T) \<le> of_int r - 1 / 2 - E"
      using Tpos by (simp add: field_simps)
    with small r(1) err show False by linarith
  qed
  have down: "E - of_int r \<le> 1 / 2"
  proof (rule ccontr)
    assume "\<not> E - of_int r \<le> 1 / 2"
    then have "1 / 2 < E - of_int r" by simp
    then have "(1 / 2) * of_nat T < (E - of_int r) * of_nat T"
      using Tpos by (simp only: mult_less_cancel_right_pos)
    then have "(0::rat) < 200 * of_nat S - (2 * of_int r + 1) * of_nat T"
      using ET by (simp add: algebra_simps)
    also have "200 * of_nat S - (2 * of_int r + 1) * of_nat T
        = (of_int (200 * int S - (2 * r + 1) * int T) :: rat)"
      by simp
    finally have "0 < 200 * int S - (2 * r + 1) * int T"
      by (simp only: of_int_0_less_iff)
    then have "1 \<le> 200 * int S - (2 * r + 1) * int T" by simp
    then have "(1::rat) \<le> of_int (200 * int S - (2 * r + 1) * int T)"
      by (simp only: of_int_1_le_iff)
    then have "(1::rat) \<le> 200 * of_nat S - (2 * of_int r + 1) * of_nat T"
      by simp
    then have "1 \<le> 2 * of_nat T * (E - of_int r - 1 / 2)"
      using ET by (simp add: algebra_simps)
    then have "1 / (2 * of_nat T) \<le> E - of_int r - 1 / 2"
      using Tpos by (simp add: field_simps)
    with small r(2) err show False by linarith
  qed
  from up down have "\<bar>of_int r - E\<bar> \<le> 1 / 2" by linarith
  then show ?thesis by (simp only: r_def y_def)
qed

lemma success_rate_small:
  assumes "or_zero sc + or_zero fc < 2 ^ 43" and "sc \<noteq> Absent \<or> or_zero fc = 0"
  shows "success_rate sc fc =
           Some (if 0 < or_zero sc + or_zero fc
                 then Math_round
                        (fl (fl (of_nat (or_zero sc) / of_nat (or_zero sc + or_zero fc)) * 100))
                 else 0)"
proof -
  define a b where "a = or_zero sc" and "b = or_zero fc"
  have "(2::nat) ^ 43 \<le> 2 ^ 53" by simp
  with assms(1) have "a + b < 2 ^ 53"
    unfolding a_def b_def by linarith
  then have "fl (of_nat (a + b)) = of_nat (a + b)"
    by (rule fl_of_nat)
  then have total: "fl (of_nat a + of_nat b) = of_nat (a + b)"
    by simp
  have pos: "(0 < (of_nat (a + b) :: rat)) = (0 < a + b)"
    by (simp only: of_nat_0_less_iff)
  have num: "to_number sc = Some (of_nat a)" if "sc \<noteq> Absent"
    using that by (cases sc) (simp_all add: to_number_def a_def or_zero_def)
  show ?thesis
  proof (cases "sc = Absent")
    case True
    with assms(2) have "a = 0" "b = 0"
      by (simp_all add: a_def b_def or_zero_def)
    then have "fl (of_nat (or_zero sc) + of_nat (or_zero fc)) = 0"
      by (simp add: a_def b_def fl_def)
    with \<open>a = 0\<close> \<open>b = 0\<close> show ?thesis
      by (simp add: success_rate_def a_def b_def)
  next
    case False
    from num[OF False] total pos show ?thesis
      unfolding success_rate_def Let_def a_def b_def by simp
  qed
qed

lemma successRate_display:
  "successRate (updateProgressDisplay st s)
     = rate_text (success_rate (successful_geocodes st) (failed_geocodes st)) @ ''%''"
  by (simp add: updateProgressDisplay_def Let_def)

text \<open>
  Claim C8, as stated, fails at an exact tie. With 23 successful and 17 failed the quotient
  is 57.5 percent, which rounds to 58. The script divides first: 23 / 40 is the double
  just below 0.575, its product with 100 is the double just below 57.5, and
  \<open>Math.round\<close> gives 57. It also fails where the snapshot has no successful count and a
  failed count of 3: the total is 3, the quotient divides \<open>undefined\<close>, and the page shows
  \<open>NaN%\<close>.
\<close>

theorem tie_is_displayed_one_below:
  "success_rate (Count 23) (Count 17) = Some 57 \<and> exact_rate 23 17 = 58
   \<and> successRate (updateProgressDisplay (counts (Count 23) (Count 17)) initial_page) = ''57%''
   \<and> success_rate Absent (Count 3) = None
   \<and> successRate (updateProgressDisplay (counts Absent (Count 3)) initial_page) = ''NaN%''"
proof -
  have u: "unat (23 :: 53 word) = 23" "unat (17 :: 53 word) = 17" "unat (3 :: 53 word) = 3"
    by simp_all
  have f: "fl 40 = 40" "Math_round (fl (fl (23 / 40) * 100)) = 57" "fl 3 = 3"
    by code_simp+
  then have a: "success_rate (Count 23) (Count 17) = Some 57"
    by (simp add: success_rate_def or_zero_def to_number_def u)
  have b: "exact_rate 23 17 = 58" by code_simp
  have c: "show_nat 57 = ''57''" by code_simp
  have d: "success_rate Absent (Count 3) = None"
    using f(3) by (simp add: success_rate_def or_zero_def to_number_def u)
  show ?thesis
    by (simp add: a b c d successRate_display counts_def rate_text_def show_int_def)
qed

text \<open>
  Claim C8, amended. Take a snapshot whose successful count is present or whose failed
  count is 0, \<open>null\<close> or absent, and whose two counts, an absent or \<open>null\<close> one taken as 0,
  sum to less than \<open>2 ^ 43\<close>. The displayed rate is a whole percent from 0 to 100 that is
  at most half a percent away from the successful count divided by the sum of the counts.
  It is that quotient rounded to a whole percent, except that at an exact tie it may be the
  percent below. It is 0 when the sum is 0: nothing is divided then.
\<close>

theorem displayed_rate_is_nearest_percent:
  assumes "or_zero (successful_geocodes st) + or_zero (failed_geocodes st) < 2 ^ 43"
    and "successful_geocodes st \<noteq> Absent \<or> or_zero (failed_geocodes st) = 0"
  shows "let a = or_zero (successful_geocodes st); b = or_zero (failed_geocodes st)
         in \<exists>r. success_rate (successful_geocodes st) (failed_geocodes st) = Some r
              \<and> successRate (updateProgressDisplay st s) = show_nat (nat r) @ ''%''
              \<and> 0 \<le> r \<and> r \<le> 100
              \<and> (a + b = 0 \<longrightarrow> r = 0)
              \<and> (0 < a + b \<longrightarrow> \<bar>of_int r - 100 * of_nat a / of_nat (a + b)\<bar> \<le> (1 / 2 :: rat))
              \<and> (r = exact_rate a b
                  \<or> r = exact_rate a b - 1
                    \<and> of_int (exact_rate a b) = (100 * of_nat a / of_nat (a + b) + 1 / 2 :: rat))"
proof -
  define a b where "a = or_zero (successful_geocodes st)" and "b = or_zero (failed_geocodes st)"
  define r where
    "r = (if 0 < a + b then Math_round (fl (fl (of_nat a / of_nat (a + b)) * 100)) else 0)"
  define E :: rat where "E = 100 * of_nat a / of_nat (a + b)"
  have ab: "a + b < 2 ^ 43" using assms(1) by (simp add: a_def b_def)
  have sr: "success_rate (successful_geocodes st) (failed_geocodes st) = Some r"
    using success_rate_small[OF assms] by (simp only: r_def a_def b_def)
  have zero: "r = 0" if "a + b = 0"
    using that by (simp add: r_def)
  have near: "\<bar>of_int r - E\<bar> \<le> 1 / 2" if "0 < a + b"
  proof -
    have "r = Math_round (fl (fl (of_nat a / of_nat (a + b)) * 100))"
      using that by (simp add: r_def)
    moreover have "a \<le> a + b" by simp
    ultimately show ?thesis
      using rate_near[OF that ab, of a] by (simp add: E_def)
  qed
  have E0: "0 \<le> E" by (simp add: E_def)
  have E100: "E \<le> 100" if "0 < a + b"
  proof -
    define T :: rat where "T = of_nat (a + b)"
    have "(of_nat a :: rat) \<le> of_nat (a + b)"
      by (simp only: of_nat_le_iff le_add1)
    moreover have "(0 :: rat) < of_nat (a + b)"
      using that by (simp only: of_nat_0_less_iff)
    ultimately have T: "0 < T" "of_nat a \<le> T"
      by (simp_all only: T_def)
    have "E = 100 * of_nat a / T"
      by (simp only: E_def T_def)
    also have "\<dots> \<le> 100 * T / T"
      using T by (intro divide_right_mono mult_left_mono) simp_all
    also have "\<dots> = 100"
      using T(1) by simp
    finally show ?thesis .
  qed
  have range: "0 \<le> r \<and> r \<le> 100"
  proof (cases "0 < a + b")
    case True
    have "- 1 < (of_int r :: rat)" "(of_int r :: rat) < 101"
      using near[OF True] E0 E100[OF True] by linarith+
    then have "- 1 < r" "r < 101"
      by (simp_all only: flip: of_int_less_iff[where ?'a = rat])
    then show ?thesis by simp
  next
    case False
    then show ?thesis using zero by simp
  qed
  have rel: "r = exact_rate a b
      \<or> r = exact_rate a b - 1 \<and> of_int (exact_rate a b) = E + 1 / 2"
  proof (cases "0 < a + b")
    case True
    then have "exact_rate a b = Math_round E"
      unfolding exact_rate_def E_def by auto
    with near_round[OF near[OF True]] show ?thesis by simp
  next
    case False
    then show ?thesis using zero by (simp add: exact_rate_def)
  qed
  have shown: "successRate (updateProgressDisplay st s) = show_nat (nat r) @ ''%''"
    using range by (simp add: successRate_display sr rate_text_def show_int_def)
  have "success_rate (successful_geocodes st) (failed_geocodes st) = Some r
      \<and> successRate (updateProgressDisplay st s) = show_nat (nat r) @ ''%''
      \<and> 0 \<le> r \<and> r \<le> 100
      \<and> (a + b = 0 \<longrightarrow> r = 0)
      \<and> (0 < a + b \<longrightarrow> \<bar>of_int r - E\<bar> \<le> 1 / 2)
      \<and> (r = exact_rate a b \<or> r = exact_rate a b - 1 \<and> of_int (exact_rate a b) = E + 1 / 2)"
    using sr shown range zero near rel by blast
  then show ?thesis
    unfolding Let_def a_def[symmetric] b_def[symmetric] E_def[symmetric] by blast
qed

text \<open>
  7 successful and 3 failed display 70%; no successful and no failed display 0%, and so
  does a snapshot that has neither count.
\<close>

theorem displayed_rate_is_nearest_percent_witness:
  "or_zero (successful_geocodes (counts (Count 7) (Count 3)))
     + or_zero (failed_geocodes (counts (Count 7) (Count 3))) < 2 ^ 43
   \<and> successful_geocodes (counts (Count 7) (Count 3)) \<noteq> Absent
   \<and> successRate (updateProgressDisplay (counts (Count 7) (Count 3)) initial_page) = ''70%''
   \<and> success_rate (Count 7) (Count 3) = Some (exact_rate 7 3)
   \<and> or_zero (successful_geocodes (counts (Count 0) (Count 0)))
       + or_zero (failed_geocodes (counts (Count 0) (Count 0))) < 2 ^ 43
   \<and> successful_geocodes (counts (Count 0) (Count 0)) \<noteq> Absent
   \<and> successRate (updateProgressDisplay (counts (Count 0) (Count 0)) initial_page) = ''0%''
   \<and> successRate (updateProgressDisplay (counts Absent Absent) initial_page) = ''0%''"
proof -
  let ?p = "counts (Count 7) (Count 3)" and ?z = "counts (Count 0) (Count 0)"
    and ?n = "counts Absent Absent"
  have p: "or_zero (successful_geocodes ?p) + or_zero (failed_geocodes ?p) < 2 ^ 43"
    "successful_geocodes ?p \<noteq> Absent"
    by (simp_all add: counts_def or_zero_def)
  have z: "or_zero (successful_geocodes ?z) + or_zero (failed_geocodes ?z) < 2 ^ 43"
    "successful_geocodes ?z \<noteq> Absent"
    by (simp_all add: counts_def or_zero_def)
  have n: "or_zero (successful_geocodes ?n) + or_zero (failed_geocodes ?n) < 2 ^ 43"
    "or_zero (failed_geocodes ?n) = 0"
    by (simp_all add: counts_def or_zero_def)
  have e: "exact_rate 7 3 = 70" by code_simp
  have c: "show_nat 70 = ''70''" "show_nat 0 = ''0''" by code_simp+
  have sums: "or_zero (successful_geocodes ?p) = 7" "or_zero (failed_geocodes ?p) = 3"
    "or_zero (successful_geocodes ?z) + or_zero (failed_geocodes ?z) = 0"
    "or_zero (successful_geocodes ?n) + or_zero (failed_geocodes ?n) = 0"
    by (simp_all add: counts_def or_zero_def)
  from displayed_rate_is_nearest_percent[OF p(1) disjI1[OF p(2)], of initial_page]
  obtain r where r: "success_rate (successful_geocodes ?p) (failed_geocodes ?p) = Some r"
      "successRate (updateProgressDisplay ?p initial_page) = show_nat (nat r) @ ''%''"
    unfolding Let_def sums by auto
  have f: "fl 10 = 10" "Math_round (fl (fl (7 / 10) * 100)) = 70"
    by code_simp+
  then have "success_rate (Count 7) (Count 3) = Some 70"
    by (simp add: success_rate_def or_zero_def to_number_def)
  with r(1) have r70: "r = 70"
    by (simp add: counts_def)
  from displayed_rate_is_nearest_percent[OF z(1) disjI1[OF z(2)], of initial_page]
  have zr: "successRate (updateProgressDisplay ?z initial_page) = ''0%''"
    unfolding Let_def sums by (auto simp add: c)
  from displayed_rate_is_nearest_percent[OF n(1) disjI2[OF n(2)], of initial_page]
  have nr: "successRate (updateProgressDisplay ?n initial_page) = ''0%''"
    unfolding Let_def sums by (auto simp add: c)
  from r(1,2) r70 have "success_rate (Count 7) (Count 3) = Some 70"
    "successRate (updateProgressDisplay ?p initial_page) = ''70%''"
    by (simp_all add: counts_def c)
  with p z zr nr e show ?thesis
    by simp
qed

end
